theory Spec2Isabelle
  imports Complex_Main "HOL-Library.Product_Lexorder" "HOL-Library.Log_Nat"
begin

section \<open>Event model\<close>

text \<open>
  A MIDI message as the simplifier and the analyser read it: its type, and for the two
  note types the channel, the pitch and the velocity. The field \<open>msg.note\<close> is the
  selector \<open>pitch\<close> here, \<open>note\<close> being a keyword of the proof language. Every message
  carries a delta time in ticks. Message types other than \<open>note_on\<close>, \<open>note_off\<close>,
  \<open>set_tempo\<close> and \<open>end_of_track\<close> are never inspected by the code; they are kept
  as an opaque name. A file is its \<open>ticks_per_beat\<close> and its list of tracks.
\<close>

datatype msg =
    NoteOn (channel: int) (pitch: int) (velocity: int) (time: int)
  | NoteOff (channel: int) (pitch: int) (velocity: int) (time: int)
  | SetTempo (tempo: int) (time: int)
  | EndOfTrack (time: int)
  | OtherMsg (kind: string) (time: int)

type_synonym track = "msg list"

record midi_file =
  ticks_per_beat :: int
  tracks :: "track list"

text \<open>
  The exceptions the code can raise: a division by zero, a quotient too large for a
  float, and the \<open>ValueError\<close> that the mido library raises when the length of a
  type-2 file is asked for.
\<close>

datatype error = ZeroDivisionError | OverflowError | ValueError

text \<open>\<open>msg.copy(time=t)\<close>: the same message with another delta time.\<close>

fun copy_time :: "msg \<Rightarrow> int \<Rightarrow> msg" where
  "copy_time (NoteOn c n v _) t = NoteOn c n v t"
| "copy_time (NoteOff c n v _) t = NoteOff c n v t"
| "copy_time (SetTempo u _) t = SetTempo u t"
| "copy_time (EndOfTrack _) t = EndOfTrack t"
| "copy_time (OtherMsg k _) t = OtherMsg k t"

text \<open>\<open>msg.type in ("note_on", "note_off")\<close>\<close>

fun is_note_msg :: "msg \<Rightarrow> bool" where
  "is_note_msg (NoteOn _ _ _ _) = True"
| "is_note_msg (NoteOff _ _ _ _) = True"
| "is_note_msg _ = False"

text \<open>\<open>msg.type == "note_on" and msg.velocity > 0\<close>\<close>

fun is_note_start :: "msg \<Rightarrow> bool" where
  "is_note_start (NoteOn _ _ v _) = (v > 0)"
| "is_note_start _ = False"

text \<open>\<open>msg.type == "note_off" or (msg.type == "note_on" and msg.velocity == 0)\<close>\<close>

fun is_note_stop :: "msg \<Rightarrow> bool" where
  "is_note_stop (NoteOff _ _ _ _) = True"
| "is_note_stop (NoteOn _ _ v _) = (v = 0)"
| "is_note_stop _ = False"

section \<open>Floats, rounding and the quantiser\<close>

text \<open>
  A Python float is an IEEE double; a finite one is modelled by the rational it
  denotes. \<open>round_double\<close> is the rounding of an exact result to the nearest double,
  ties to the even significand: the exponent \<open>e\<close> of \<open>x\<close> is the integer with
  \<open>2 ^ e \<le> \<bar>x\<bar> < 2 ^ (e + 1)\<close>, not below -1022 (the subnormal range), and \<open>x\<close> is
  rounded to a multiple of \<open>2 ^ (e - 52)\<close>.
\<close>

definition round_half_even :: "rat \<Rightarrow> int" where
  "round_half_even x =
     (let f = \<lfloor>x\<rfloor>; d = x - of_int f
      in if d < 1 / 2 then f else if 1 / 2 < d then f + 1 else if even f then f else f + 1)"

definition double_exponent :: "rat \<Rightarrow> int" where
  "double_exponent x =
     (let (p, q) = quotient_of \<bar>x\<bar>;
          d = bitlen p - bitlen q
      in if \<bar>x\<bar> < 2 powi d then d - 1 else d)"

definition round_double :: "rat \<Rightarrow> rat" where
  "round_double x =
     (if x = 0 then 0
      else (let e = max (double_exponent x) (- 1022);
                ulp = 2 powi (e - 52)
            in of_int (round_half_even (x / ulp)) * ulp))"

text \<open>
  The true division \<open>a / b\<close> of two Python ints: \<open>ZeroDivisionError\<close> when \<open>b\<close> is 0,
  otherwise the exact quotient rounded to the nearest double, and \<open>OverflowError\<close> when
  that is beyond the largest double, which is when its exponent exceeds 1023.
\<close>

definition int_true_divide :: "int \<Rightarrow> int \<Rightarrow> error + rat" where
  "int_true_divide a b =
     (if b = 0 then Inl ZeroDivisionError
      else (let x = round_double (of_int a / of_int b)
            in if x \<noteq> 0 \<and> 1024 \<le> double_exponent x then Inl OverflowError else Inr x))"

text \<open>
  Python 3's \<open>round(x)\<close> on a float, as CPython computes it: C's \<open>round\<close> (halves away
  from zero), and where the result lies exactly one half from \<open>x\<close> it is replaced by
  \<open>2 * round(x / 2)\<close>. The result is an int.
\<close>

definition c_round :: "rat \<Rightarrow> int" where
  "c_round x = (if 0 \<le> x then \<lfloor>x + 1 / 2\<rfloor> else \<lceil>x - 1 / 2\<rceil>)"

definition py_round :: "rat \<Rightarrow> int" where
  "py_round x =
     (let rounded = c_round x
      in if \<bar>x - of_int rounded\<bar> = 1 / 2 then 2 * c_round (x / 2) else rounded)"

text \<open>
  \<open>_quantise_tick(tick, grid) = round(tick / grid) * grid\<close>: the float quotient of the
  two ints, rounded to an int, times the grid.
\<close>

definition quantise_tick :: "int \<Rightarrow> int \<Rightarrow> error + int" where
  "quantise_tick tick grid =
     (case int_true_divide tick grid of
        Inl e \<Rightarrow> Inl e
      | Inr x \<Rightarrow> Inr (py_round x * grid))"

section \<open>Difficulty scorer\<close>

text \<open>
  \<open>_estimate_level\<close>, in two parts. First the four \<open>if/elif\<close> chains that
  accumulate \<open>score\<close>; \<open>nps\<close> and \<open>polyphony\<close> are floats, the other two are ints.
\<close>

definition level_score :: "rat \<Rightarrow> rat \<Rightarrow> int \<Rightarrow> int \<Rightarrow> int" where
  "level_score nps polyphony prange hand_span =
     (let score = (0::int);
          score = (if nps < 2 then score + 1
                   else if nps < 4 then score + 3
                   else if nps < 7 then score + 5
                   else if nps < 10 then score + 7
                   else score + 9);
          score = (if polyphony < 3 / 2 then score + 1
                   else if polyphony < 5 / 2 then score + 3
                   else if polyphony < 4 then score + 5
                   else score + 8);
          score = (if prange < 24 then score + 1
                   else if prange < 36 then score + 3
                   else if prange < 48 then score + 5
                   else score + 7);
          score = (if hand_span < 8 then score + 1
                   else if hand_span < 12 then score + 3
                   else if hand_span < 15 then score + 5
                   else score + 7)
      in score)"

text \<open>
  Then \<open>level = round(score / 4)\<close> and \<open>max(1, min(10, level))\<close>. The score lies
  between 4 and 31, so the float \<open>score / 4\<close> is the exact quotient.
\<close>

definition estimate_level :: "rat \<Rightarrow> rat \<Rightarrow> int \<Rightarrow> int \<Rightarrow> int" where
  "estimate_level nps polyphony prange hand_span =
     (let score = level_score nps polyphony prange hand_span;
          lvl = py_round (of_int score / 4)
      in max 1 (min 10 lvl))"

text \<open>
  The scorer as the specification words it: one sub-score per metric, read from its
  breakpoint table, and the level is the rounded mean of the four, clamped to 1..10.
\<close>

definition spec_nps_score :: "rat \<Rightarrow> int" where
  "spec_nps_score x = (if x < 2 then 1 else if x < 4 then 3 else if x < 7 then 5
                       else if x < 10 then 7 else 9)"

definition spec_polyphony_score :: "rat \<Rightarrow> int" where
  "spec_polyphony_score x = (if x < 3 / 2 then 1 else if x < 5 / 2 then 3
                             else if x < 4 then 5 else 8)"

definition spec_pitch_range_score :: "int \<Rightarrow> int" where
  "spec_pitch_range_score x = (if x < 24 then 1 else if x < 36 then 3
                               else if x < 48 then 5 else 7)"

definition spec_hand_span_score :: "int \<Rightarrow> int" where
  "spec_hand_span_score x = (if x < 8 then 1 else if x < 12 then 3
                             else if x < 15 then 5 else 7)"

definition spec_clamp :: "int \<Rightarrow> int" where
  "spec_clamp l = (if l < 1 then 1 else if 10 < l then 10 else l)"

definition spec_level :: "rat \<Rightarrow> rat \<Rightarrow> int \<Rightarrow> int \<Rightarrow> int" where
  "spec_level nps polyphony prange hand_span =
     spec_clamp (py_round (of_int (spec_nps_score nps + spec_polyphony_score polyphony
        + spec_pitch_range_score prange + spec_hand_span_score hand_span) / 4))"

section \<open>Advanced simplification\<close>

text \<open>
  \<open>_recalculate_deltas(track, grid)\<close>: its body is \<open>pass\<close>, the track is left as it is.
\<close>

definition recalculate_deltas :: "track \<Rightarrow> int \<Rightarrow> track" where
  "recalculate_deltas new_track grid = new_track"

text \<open>
  The inner loop of \<open>simplify_advanced\<close> over one track. The running sum of the delta
  times is quantised for every note message (the division may raise); the result
  \<open>quantised_time\<close> is bound and not used, and every message is appended as
  \<open>msg.copy(time=0)\<close>.
\<close>

fun advanced_loop :: "int \<Rightarrow> int \<Rightarrow> track \<Rightarrow> track \<Rightarrow> error + track" where
  "advanced_loop grid cumulative_time [] new_track = Inr new_track"
| "advanced_loop grid cumulative_time (m # ms) new_track =
     (let cumulative_time = cumulative_time + time m
      in if is_note_msg m then
           (case quantise_tick cumulative_time grid of
              Inl e \<Rightarrow> Inl e
            | Inr quantised_time \<Rightarrow>
                advanced_loop grid cumulative_time ms (new_track @ [copy_time m 0]))
         else advanced_loop grid cumulative_time ms (new_track @ [copy_time m 0]))"

fun advanced_tracks :: "int \<Rightarrow> track list \<Rightarrow> track list \<Rightarrow> error + track list" where
  "advanced_tracks grid [] out_tracks = Inr out_tracks"
| "advanced_tracks grid (t # ts) out_tracks =
     (case advanced_loop grid 0 t [] of
        Inl e \<Rightarrow> Inl e
      | Inr new_track \<Rightarrow>
          advanced_tracks grid ts (out_tracks @ [recalculate_deltas new_track grid]))"

definition simplify_advanced :: "midi_file \<Rightarrow> error + midi_file" where
  "simplify_advanced mid =
     (let tpb = ticks_per_beat mid;
          grid = tpb div 4
      in case advanced_tracks grid (tracks mid) [] of
           Inl e \<Rightarrow> Inl e
         | Inr ts \<Rightarrow> Inr \<lparr>ticks_per_beat = tpb, tracks = ts\<rparr>)"

section \<open>Intermediate simplification\<close>

definition max_polyphony :: nat where
  "max_polyphony = 4"

definition min_velocity :: int where
  "min_velocity = 40"

text \<open>
  One iteration of the loop of \<open>simplify_intermediate\<close> over the messages of a track.
  The state is the set \<open>active_notes\<close> and the track built so far. The synthesised
  \<open>note_off\<close> takes mido's default channel 0.
\<close>

definition intermediate_step :: "int set \<times> track \<Rightarrow> msg \<Rightarrow> int set \<times> track" where
  "intermediate_step st m =
     (let (active_notes, new_track) = st
      in if is_note_start m then
           (if velocity m < min_velocity then (active_notes, new_track)
            else if card active_notes \<ge> max_polyphony then
              (if active_notes \<noteq> {} then
                 (let lowest = Min active_notes
                  in if pitch m > lowest then
                       (insert (pitch m) (active_notes - {lowest}),
                        new_track @ [NoteOff 0 lowest 0 0] @ [m])
                     else (active_notes, new_track))
               else (insert (pitch m) active_notes, new_track @ [m]))
            else (insert (pitch m) active_notes, new_track @ [m]))
         else if is_note_stop m then (active_notes - {pitch m}, new_track @ [m])
         else (active_notes, new_track @ [m]))"

definition intermediate_track :: "track \<Rightarrow> track" where
  "intermediate_track t = snd (foldl intermediate_step ({}, []) t)"

definition simplify_intermediate :: "midi_file \<Rightarrow> midi_file" where
  "simplify_intermediate mid =
     \<lparr>ticks_per_beat = ticks_per_beat mid, tracks = map intermediate_track (tracks mid)\<rparr>"

text \<open>
  The replay of the repository's test \<open>test_limits_polyphony\<close>: one set of sounding
  pitches, carried through all messages of all tracks of the result in order, and the
  largest size it reaches.
\<close>

definition replay_step :: "int set \<times> nat \<Rightarrow> msg \<Rightarrow> int set \<times> nat" where
  "replay_step st m =
     (let (active, max_active) = st;
          active = (if is_note_start m then insert (pitch m) active
                    else if is_note_stop m then active - {pitch m}
                    else active)
      in (active, max max_active (card active)))"

definition replay_max_active :: "track list \<Rightarrow> nat" where
  "replay_max_active ts = snd (foldl (foldl replay_step) ({}, 0) ts)"

section \<open>Beginner simplification\<close>

text \<open>
  \<open>d.setdefault(k, []).append(v)\<close> on a dictionary kept as an association list in
  insertion order, which is the order Python iterates a \<open>dict\<close> in.
\<close>

fun setdefault_append :: "'k \<Rightarrow> 'v \<Rightarrow> ('k \<times> 'v list) list \<Rightarrow> ('k \<times> 'v list) list" where
  "setdefault_append k v [] = [(k, [v])]"
| "setdefault_append k v ((k', vs) # rest) =
     (if k' = k then (k', vs @ [v]) # rest else (k', vs) # setdefault_append k v rest)"

text \<open>The note messages of one track with their absolute times, appended to \<open>events\<close>.\<close>

fun collect_track :: "int \<Rightarrow> track \<Rightarrow> (int \<times> msg) list \<Rightarrow> (int \<times> msg) list" where
  "collect_track abs_time [] events = events"
| "collect_track abs_time (m # ms) events =
     (let abs_time = abs_time + time m
      in collect_track abs_time ms
           (if is_note_msg m then events @ [(abs_time, m)] else events))"

definition collect_events :: "track list \<Rightarrow> (int \<times> msg) list" where
  "collect_events ts = foldl (\<lambda>events t. collect_track 0 t events) [] ts"

text \<open>
  The sort key \<open>(e[0], -e[1].note if e[1].type == "note_on" else 0)\<close>; \<open>list.sort\<close> is
  stable, as \<open>sort_key\<close> is.
\<close>

definition event_key :: "int \<times> msg \<Rightarrow> int \<times> int" where
  "event_key e = (fst e, case snd e of NoteOn _ n _ _ \<Rightarrow> - n | _ \<Rightarrow> 0)"

fun group_events ::
  "int \<Rightarrow> (int \<times> msg) list \<Rightarrow> (int \<times> msg list) list \<Rightarrow> error + (int \<times> msg list) list" where
  "group_events grid [] grid_events = Inr grid_events"
| "group_events grid ((abs_time, m) # es) grid_events =
     (case quantise_tick abs_time grid of
        Inl e \<Rightarrow> Inl e
      | Inr q_time \<Rightarrow> group_events grid es (setdefault_append q_time m grid_events))"

text \<open>
  \<open>max(note_ons, key=lambda m: m.note)\<close> on a non-empty list: the first message of
  the greatest pitch.
\<close>

fun max_by_note :: "msg \<Rightarrow> msg list \<Rightarrow> msg" where
  "max_by_note best [] = best"
| "max_by_note best (m # ms) = max_by_note (if pitch m > pitch best then m else best) ms"

text \<open>
  The body of the loop over the sorted grid positions. The state is \<open>current_note\<close>,
  \<open>last_time\<close> and the melody track.
\<close>

definition melody_step :: "int \<Rightarrow> msg list \<Rightarrow> int option \<times> int \<times> track \<Rightarrow> int option \<times> int \<times> track" where
  "melody_step q_time msgs st =
     (let (current_note, last_time, melody_track) = st;
          note_ons = filter is_note_start msgs
      in case note_ons of
           [] \<Rightarrow> (current_note, last_time, melody_track)
         | n # ns \<Rightarrow>
             (let highest = max_by_note n ns;
                  delta = q_time - last_time;
                  (melody_track, delta) =
                    (case current_note of
                       None \<Rightarrow> (melody_track, delta)
                     | Some c \<Rightarrow> (melody_track @ [NoteOff 0 c 0 delta], 0));
                  melody_track =
                    melody_track @ [NoteOn 0 (pitch highest) (min (velocity highest) 100) delta]
              in (Some (pitch highest), q_time, melody_track)))"

text \<open>
  \<open>for q_time in sorted(grid_events.keys())\<close>, with \<open>grid_events[q_time]\<close> looked up;
  every key is present, so the lookup cannot fail.
\<close>

definition melody_loop :: "(int \<times> msg list) list \<Rightarrow> int option \<times> int \<times> track" where
  "melody_loop grid_events =
     foldl (\<lambda>st q_time. case map_of grid_events q_time of
                           None \<Rightarrow> st
                         | Some msgs \<Rightarrow> melody_step q_time msgs st)
       (None, 0, []) (sort (map fst grid_events))"

text \<open>\<open>_find_tempo\<close>: the first \<open>set_tempo\<close> of the file, or \<open>mido.bpm2tempo(120)\<close>.\<close>

fun find_tempo_track :: "track \<Rightarrow> int option" where
  "find_tempo_track [] = None"
| "find_tempo_track (SetTempo u _ # ms) = Some u"
| "find_tempo_track (_ # ms) = find_tempo_track ms"

fun find_tempo :: "track list \<Rightarrow> int" where
  "find_tempo [] = 500000"
| "find_tempo (t # ts) = (case find_tempo_track t of Some u \<Rightarrow> u | None \<Rightarrow> find_tempo ts)"

text \<open>\<open>int(x)\<close> on a float truncates towards zero.\<close>

definition py_int :: "rat \<Rightarrow> int" where
  "py_int x = (if 0 \<le> x then \<lfloor>x\<rfloor> else \<lceil>x\<rceil>)"

definition simplify_beginner :: "midi_file \<Rightarrow> error + midi_file" where
  "simplify_beginner mid =
     (let tpb = ticks_per_beat mid;
          grid = tpb;
          events = sort_key event_key (collect_events (tracks mid))
      in case group_events grid events [] of
           Inl e \<Rightarrow> Inl e
         | Inr grid_events \<Rightarrow>
             (let (current_note, last_time, melody_track) = melody_loop grid_events;
                  melody_track =
                    (case current_note of
                       None \<Rightarrow> melody_track
                     | Some c \<Rightarrow> melody_track @ [NoteOff 0 c 0 grid]);
                  original_tempo = find_tempo (tracks mid);
                  slower_tempo = py_int (of_int original_tempo * (5 / 4));
                  tempo_track = [SetTempo slower_tempo 0, EndOfTrack 0];
                  melody_track = melody_track @ [EndOfTrack 0]
              in Inr \<lparr>ticks_per_beat = tpb, tracks = [tempo_track, melody_track]\<rparr>))"

text \<open>
  The replay of the repository's test \<open>test_reduces_to_single_notes\<close>: a counter of
  sounding notes over all messages of all tracks in order, and the largest value it
  reaches.
\<close>

definition count_step :: "int \<times> int \<Rightarrow> msg \<Rightarrow> int \<times> int" where
  "count_step st m =
     (let (active, max_active) = st;
          active = (if is_note_start m then active + 1
                    else if is_note_stop m then max 0 (active - 1)
                    else active)
      in (active, max max_active active))"

definition count_max_active :: "track list \<Rightarrow> int" where
  "count_max_active ts = snd (foldl (foldl count_step) (0, 0) ts)"

section \<open>Metric extraction and the report\<close>

record difficulty_report =
  level :: int
  label :: string
  notes_per_second :: rat
  avg_polyphony :: rat
  pitch_range :: int
  max_hand_span :: int
  total_notes :: int
  duration_seconds :: rat

definition LEVEL_LABELS :: "(int \<times> string) list" where
  "LEVEL_LABELS =
     [(1, ''beginner''), (2, ''beginner+''), (3, ''easy''), (4, ''easy+''),
      (5, ''intermediate''), (6, ''intermediate+''), (7, ''advanced''),
      (8, ''advanced+''), (9, ''expert''), (10, ''concert'')]"

text \<open>The \<open>(abs_time, msg.note)\<close> pairs of the note starts of one track.\<close>

fun note_events_track :: "int \<Rightarrow> track \<Rightarrow> (int \<times> int) list \<Rightarrow> (int \<times> int) list" where
  "note_events_track abs_time [] note_events = note_events"
| "note_events_track abs_time (m # ms) note_events =
     (let abs_time = abs_time + time m
      in note_events_track abs_time ms
           (if is_note_start m then note_events @ [(abs_time, pitch m)] else note_events))"

definition collect_note_events :: "track list \<Rightarrow> (int \<times> int) list" where
  "collect_note_events ts = foldl (\<lambda>note_events t. note_events_track 0 t note_events) [] ts"

text \<open>
  \<open>bucket = int(t // window)\<close> for every note event; the floor division raises
  \<open>ZeroDivisionError\<close> when \<open>window\<close> is 0.
\<close>

fun fill_buckets ::
  "int \<Rightarrow> (int \<times> int) list \<Rightarrow> (int \<times> int list) list \<Rightarrow> error + (int \<times> int list) list" where
  "fill_buckets window [] buckets = Inr buckets"
| "fill_buckets window ((t, n) # es) buckets =
     (if window = 0 then Inl ZeroDivisionError
      else fill_buckets window es (setdefault_append (t div window) n buckets))"

text \<open>\<open>max\<close> and \<open>min\<close> of a list; the code calls them on non-empty lists only.\<close>

fun max_list :: "int list \<Rightarrow> int" where
  "max_list [] = 0"
| "max_list [x] = x"
| "max_list (x # xs) = max x (max_list xs)"

fun min_list :: "int list \<Rightarrow> int" where
  "min_list [] = 0"
| "min_list [x] = x"
| "min_list (x # xs) = min x (min_list xs)"

text \<open>The loop computing \<open>max_span\<close> over \<open>buckets.values()\<close>.\<close>

fun span_loop :: "int list list \<Rightarrow> int \<Rightarrow> int" where
  "span_loop [] max_span = max_span"
| "span_loop (notes # rest) max_span =
     span_loop rest
       (if length notes > 1 then max max_span (max_list notes - min_list notes)
        else max_span)"

text \<open>The float written \<open>0.1\<close>: the double nearest to one tenth.\<close>

definition float_tenth :: rat where
  "float_tenth = 3602879701896397 / 36028797018963968"

text \<open>
  \<open>analyse\<close>, after the file is read. Its first step is \<open>duration = mid.length\<close>, a
  property that the mido library computes: it raises (a \<open>ValueError\<close> on a type-2 file)
  or returns the playing time in seconds, a float, which is 0 when no message has a
  positive delta time. \<open>mid_length\<close> is the outcome of that step; when it is an
  exception, \<open>analyse\<close> raises it. The floats \<open>notes_per_second\<close> and \<open>avg_polyphony\<close> are
  the exact quotients rounded to doubles; \<open>total_notes\<close> and the bucket sizes are
  lengths of lists, below \<open>2 ^ 63\<close>, so these divisions do not overflow.
\<close>

definition analyse :: "error + rat \<Rightarrow> midi_file \<Rightarrow> error + difficulty_report" where
  "analyse mid_length mid =
     (case mid_length of
        Inl e \<Rightarrow> Inl e
      | Inr duration \<Rightarrow>
     (let note_events = collect_note_events (tracks mid)
      in if note_events = [] \<or> duration = 0 then
           Inr \<lparr>level = 1, label = ''beginner'', notes_per_second = 0, avg_polyphony = 0,
                pitch_range = 0, max_hand_span = 0, total_notes = 0,
                duration_seconds = duration\<rparr>
         else
           (let total = int (length note_events);
                nps = round_double (round_double (of_int total) / max duration float_tenth);
                pitches = map snd note_events;
                prange = max_list pitches - min_list pitches;
                tpb = ticks_per_beat mid;
                window = tpb div 8
            in case fill_buckets window note_events [] of
                 Inl e \<Rightarrow> Inl e
               | Inr buckets \<Rightarrow>
                   (let polyphonies = map (\<lambda>b. int (length (snd b))) buckets;
                        avg = (if polyphonies \<noteq> []
                               then round_double (of_int (sum_list polyphonies)
                                                   / of_int (int (length polyphonies)))
                               else 0);
                        max_span = span_loop (map snd buckets) 0;
                        lvl = estimate_level nps avg prange max_span
                    in Inr \<lparr>level = lvl,
                            label = (case map_of LEVEL_LABELS lvl of
                                       Some l \<Rightarrow> l | None \<Rightarrow> ''unknown''),
                            notes_per_second = nps, avg_polyphony = avg,
                            pitch_range = prange, max_hand_span = max_span,
                            total_notes = total, duration_seconds = duration\<rparr>))))"

section \<open>Properties of rounding\<close>













lemma quantise_tick_grid_zero: "quantise_tick tick 0 = Inl ZeroDivisionError"
  by (simp add: quantise_tick_def int_true_divide_def)

lemma py_round_zero: "py_round 0 = 0"
  by code_simp

lemma quantise_tick_zero: "grid \<noteq> 0 \<Longrightarrow> quantise_tick 0 grid = Inr 0"
  by (simp add: quantise_tick_def int_true_divide_def round_double_def py_round_zero)

section \<open>The scorer\<close>

lemma level_score_sum:
  "level_score nps polyphony prange hand_span =
     spec_nps_score nps + spec_polyphony_score polyphony
       + spec_pitch_range_score prange + spec_hand_span_score hand_span"
  by (simp add: level_score_def spec_nps_score_def spec_polyphony_score_def
        spec_pitch_range_score_def spec_hand_span_score_def)

lemma clamp_eq: "max 1 (min 10 l) = spec_clamp l"
  by (simp add: spec_clamp_def)

text \<open>
  C8. The scorer is a function of its four arguments alone: each contributes the
  sub-score of its breakpoint table, and the level is the rounded quarter of their sum,
  clamped to 1..10. The function translated from the code equals the one written from
  the tables.
\<close>

theorem estimate_level_refines_spec:
  "estimate_level nps polyphony prange hand_span = spec_level nps polyphony prange hand_span"
  by (simp add: estimate_level_def spec_level_def level_score_sum clamp_eq)




section \<open>Advanced simplification: what the loop returns\<close>

lemma is_note_msg_copy_time [simp]: "is_note_msg (copy_time m t) = is_note_msg m"
  by (cases m) simp_all

lemma copy_time_copy_time [simp]: "copy_time (copy_time m t) t' = copy_time m t'"
  by (cases m) simp_all

lemma time_copy_time [simp]: "time (copy_time m t) = t"
  by (cases m) simp_all

text \<open>Whatever the loop returns is the input with every delta time set to 0.\<close>

lemma advanced_loop_result:
  "advanced_loop grid c t acc = Inr r \<Longrightarrow> r = acc @ map (\<lambda>m. copy_time m 0) t"
proof (induction t arbitrary: c acc)
  case Nil
  then show ?case by simp
next
  case (Cons m ms)
  from Cons.prems have "advanced_loop grid (c + time m) ms (acc @ [copy_time m 0]) = Inr r"
    by (cases "is_note_msg m") (auto simp add: Let_def split: sum.splits)
  from Cons.IH [OF this] show ?case by simp
qed

text \<open>With a grid of 0 the loop returns only when the track has no note message.\<close>

lemma advanced_loop_grid_zero:
  "advanced_loop 0 c t acc = Inr r \<Longrightarrow> \<forall>m \<in> set t. \<not> is_note_msg m"
proof (induction t arbitrary: c acc)
  case Nil
  then show ?case by simp
next
  case (Cons m ms)
  show ?case
  proof (cases "is_note_msg m")
    case True
    with Cons.prems show ?thesis by (simp add: Let_def quantise_tick_grid_zero)
  next
    case False
    with Cons.prems have "advanced_loop 0 (c + time m) ms (acc @ [copy_time m 0]) = Inr r"
      by (simp add: Let_def)
    from Cons.IH [OF this] False show ?thesis by simp
  qed
qed

text \<open>On a track whose delta times are all 0 the loop returns.\<close>

lemma advanced_loop_zero_times:
  assumes "\<forall>m \<in> set t. time m = 0" and "grid = 0 \<longrightarrow> (\<forall>m \<in> set t. \<not> is_note_msg m)"
  shows "advanced_loop grid 0 t acc = Inr (acc @ map (\<lambda>m. copy_time m 0) t)"
  using assms
proof (induction t arbitrary: acc)
  case Nil
  show ?case by simp
next
  case (Cons m ms)
  have t0: "time m = 0" and rest: "\<forall>m \<in> set ms. time m = 0" using Cons.prems(1) by simp_all
  have g: "grid = 0 \<longrightarrow> (\<forall>m \<in> set ms. \<not> is_note_msg m)" using Cons.prems(2) by simp
  have q: "is_note_msg m \<Longrightarrow> quantise_tick 0 grid = Inr 0"
    using Cons.prems(2) by (intro quantise_tick_zero) auto
  show ?case
    by (cases "is_note_msg m") (simp_all add: Let_def t0 q Cons.IH [OF rest g])
qed

lemma advanced_tracks_result:
  "advanced_tracks grid ts acc = Inr r \<Longrightarrow>
     r = acc @ map (map (\<lambda>m. copy_time m 0)) ts \<and>
     (grid = 0 \<longrightarrow> (\<forall>t \<in> set ts. \<forall>m \<in> set t. \<not> is_note_msg m))"
proof (induction ts arbitrary: acc)
  case Nil
  then show ?case by simp
next
  case (Cons t ts)
  from Cons.prems obtain nt where nt: "advanced_loop grid 0 t [] = Inr nt"
    and rest: "advanced_tracks grid ts (acc @ [recalculate_deltas nt grid]) = Inr r"
    by (auto split: sum.splits)
  have nt_eq: "nt = map (\<lambda>m. copy_time m 0) t"
    using advanced_loop_result [OF nt] by simp
  have "grid = 0 \<longrightarrow> (\<forall>m \<in> set t. \<not> is_note_msg m)"
    using nt advanced_loop_grid_zero [of 0 t "[]" nt] by auto
  with Cons.IH [OF rest] show ?case
    by (simp add: nt_eq recalculate_deltas_def)
qed

lemma advanced_tracks_zero_times:
  assumes "\<forall>t \<in> set ts. \<forall>m \<in> set t. time m = 0"
    and "grid = 0 \<longrightarrow> (\<forall>t \<in> set ts. \<forall>m \<in> set t. \<not> is_note_msg m)"
  shows "advanced_tracks grid ts acc = Inr (acc @ map (map (\<lambda>m. copy_time m 0)) ts)"
  using assms
proof (induction ts arbitrary: acc)
  case Nil
  show ?case by simp
next
  case (Cons t ts)
  have "advanced_loop grid 0 t [] = Inr (map (\<lambda>m. copy_time m 0) t)"
    using advanced_loop_zero_times [of t grid "[]"] Cons.prems by simp
  moreover have "advanced_tracks grid ts (acc @ [map (\<lambda>m. copy_time m 0) t])
      = Inr ((acc @ [map (\<lambda>m. copy_time m 0) t]) @ map (map (\<lambda>m. copy_time m 0)) ts)"
    using Cons.prems by (intro Cons.IH) simp_all
  ultimately show ?case by (simp add: recalculate_deltas_def)
qed

text \<open>
  C5. Advanced simplification is idempotent: whenever it returns a file, applying it to
  that file returns the same file.
\<close>

theorem simplify_advanced_idempotent:
  "simplify_advanced mid = Inr out \<Longrightarrow> simplify_advanced out = Inr out"
proof -
  assume a: "simplify_advanced mid = Inr out"
  let ?grid = "ticks_per_beat mid div 4"
  from a obtain ts where ts: "advanced_tracks ?grid (tracks mid) [] = Inr ts"
    and out: "out = \<lparr>ticks_per_beat = ticks_per_beat mid, tracks = ts\<rparr>"
    by (auto simp add: simplify_advanced_def Let_def split: sum.splits)
  from advanced_tracks_result [OF ts]
  have ts_eq: "ts = map (map (\<lambda>m. copy_time m 0)) (tracks mid)"
    and nonote: "?grid = 0 \<longrightarrow> (\<forall>t \<in> set (tracks mid). \<forall>m \<in> set t. \<not> is_note_msg m)"
    by simp_all
  have "advanced_tracks ?grid ts [] = Inr ([] @ map (map (\<lambda>m. copy_time m 0)) ts)"
    by (rule advanced_tracks_zero_times) (use nonote in \<open>auto simp add: ts_eq\<close>)
  moreover have "map (map (\<lambda>m. copy_time m 0)) ts = ts"
    by (simp add: ts_eq)
  ultimately show "simplify_advanced out = Inr out"
    by (simp add: simplify_advanced_def out Let_def)
qed

theorem simplify_advanced_idempotent_witness:
  "simplify_advanced \<lparr>ticks_per_beat = 480, tracks = [[NoteOn 0 60 80 100, NoteOff 0 60 0 480, EndOfTrack 0]]\<rparr>
     = Inr \<lparr>ticks_per_beat = 480, tracks = [[NoteOn 0 60 80 0, NoteOff 0 60 0 0, EndOfTrack 0]]\<rparr> \<and>
   simplify_advanced \<lparr>ticks_per_beat = 480, tracks = [[NoteOn 0 60 80 0, NoteOff 0 60 0 0, EndOfTrack 0]]\<rparr>
     = Inr \<lparr>ticks_per_beat = 480, tracks = [[NoteOn 0 60 80 0, NoteOff 0 60 0 0, EndOfTrack 0]]\<rparr>"
proof -
  have h: "simplify_advanced \<lparr>ticks_per_beat = 480, tracks = [[NoteOn 0 60 80 100, NoteOff 0 60 0 480, EndOfTrack 0]]\<rparr>
     = Inr \<lparr>ticks_per_beat = 480, tracks = [[NoteOn 0 60 80 0, NoteOff 0 60 0 0, EndOfTrack 0]]\<rparr>"
    by code_simp
  from h simplify_advanced_idempotent [OF h] show ?thesis by simp
qed

text \<open>
  C1. Advanced simplification is documented to quantise the absolute time of every note
  event to the sixteenth-note grid and to drop very short notes. On a file with 480
  ticks per beat whose notes start at ticks 100 and 580 (the grid would place them at
  120 and 600) and whose second note lasts 5 ticks, the code returns every message with
  delta time 0 and drops nothing.
\<close>

theorem simplify_advanced_zeroes_times:
  "simplify_advanced
     \<lparr>ticks_per_beat = 480,
      tracks = [[NoteOn 0 60 80 100, NoteOff 0 60 0 480, NoteOn 0 62 80 0, NoteOff 0 62 0 5,
                 EndOfTrack 10]]\<rparr>
   = Inr \<lparr>ticks_per_beat = 480,
          tracks = [[NoteOn 0 60 80 0, NoteOff 0 60 0 0, NoteOn 0 62 80 0, NoteOff 0 62 0 0,
                     EndOfTrack 0]]\<rparr> \<and>
   quantise_tick 100 (480 div 4) = Inr 120 \<and> quantise_tick 580 (480 div 4) = Inr 600"
proof -
  have "simplify_advanced
     \<lparr>ticks_per_beat = 480,
      tracks = [[NoteOn 0 60 80 100, NoteOff 0 60 0 480, NoteOn 0 62 80 0, NoteOff 0 62 0 5,
                 EndOfTrack 10]]\<rparr>
   = Inr \<lparr>ticks_per_beat = 480,
          tracks = [[NoteOn 0 60 80 0, NoteOff 0 60 0 0, NoteOn 0 62 80 0, NoteOff 0 62 0 0,
                     EndOfTrack 0]]\<rparr>"
    by code_simp
  moreover have "quantise_tick 100 (480 div 4) = Inr 120" by code_simp
  moreover have "quantise_tick 580 (480 div 4) = Inr 600" by code_simp
  ultimately show ?thesis by (intro conjI)
qed

section \<open>Intermediate simplification: note stops\<close>

lemma intermediate_step_stop:
  "is_note_stop m \<Longrightarrow>
     intermediate_step (active_notes, new_track) m = (active_notes - {pitch m}, new_track @ [m])"
  by (cases m) (simp_all add: intermediate_step_def)

lemma intermediate_step_keeps:
  "set (snd st) \<subseteq> set (snd (intermediate_step st m))"
  by (cases st) (auto simp add: intermediate_step_def Let_def)

lemma intermediate_fold_keeps:
  "set (snd st) \<subseteq> set (snd (foldl intermediate_step st t))"
proof (induction t arbitrary: st)
  case Nil
  show ?case by simp
next
  case (Cons m ms)
  have "set (snd st) \<subseteq> set (snd (intermediate_step st m))"
    by (rule intermediate_step_keeps)
  also have "\<dots> \<subseteq> set (snd (foldl intermediate_step (intermediate_step st m) ms))"
    by (rule Cons.IH)
  finally show ?case by simp
qed

lemma intermediate_fold_stop:
  "m \<in> set t \<Longrightarrow> is_note_stop m \<Longrightarrow> m \<in> set (snd (foldl intermediate_step st t))"
proof (induction t arbitrary: st)
  case Nil
  then show ?case by simp
next
  case (Cons x xs)
  show ?case
  proof (cases "m = x")
    case True
    obtain a tr where st: "st = (a, tr)" by (cases st)
    have "m \<in> set (snd (intermediate_step st x))"
      using True Cons.prems(2) by (simp add: st intermediate_step_stop)
    then show ?thesis using intermediate_fold_keeps [of "intermediate_step st x" xs] by auto
  next
    case False
    with Cons.prems have "m \<in> set xs" by simp
    then show ?thesis using Cons.IH Cons.prems(2) by simp
  qed
qed

text \<open>
  C2, as the code has it. A note stop (a \<open>note_off\<close>, or a \<open>note_on\<close> of velocity 0)
  is always emitted, whether or not its pitch is in the active set: the step removes the
  pitch from the set and appends the message, and so every note stop of an input track
  occurs in the output track.
\<close>

theorem intermediate_emits_every_stop:
  assumes "is_note_stop m"
  shows "intermediate_step (active_notes, new_track) m
           = (active_notes - {pitch m}, new_track @ [m]) \<and>
         (m \<in> set t \<longrightarrow> m \<in> set (intermediate_track t))"
  using assms by (simp add: intermediate_step_stop intermediate_fold_stop intermediate_track_def)

theorem intermediate_emits_every_stop_witness:
  "is_note_stop (NoteOff 0 64 0 480) \<and>
   intermediate_step ({}, []) (NoteOff 0 64 0 480) = ({} - {64}, [] @ [NoteOff 0 64 0 480]) \<and>
   NoteOff 0 64 0 480 \<in> set [NoteOn 0 64 20 0, NoteOff 0 64 0 480] \<and>
   NoteOff 0 64 0 480 \<in> set (intermediate_track [NoteOn 0 64 20 0, NoteOff 0 64 0 480])"
  using intermediate_emits_every_stop [of "NoteOff 0 64 0 480" "{}" "[]"
          "[NoteOn 0 64 20 0, NoteOff 0 64 0 480]"]
  by simp

text \<open>
  C2, as stated, fails. A note start of velocity 20 is discarded by the velocity filter
  and pitch 64 never enters the active set, yet the stop for pitch 64 is emitted. And
  with four notes sounding, a note start of pitch 48, below the lowest of them, is
  discarded by the polyphony rule, yet its stop is emitted.
\<close>

theorem intermediate_stop_not_suppressed:
  "intermediate_step ({}, []) (NoteOn 0 64 20 0) = ({}, []) \<and>
   64 \<notin> fst (intermediate_step ({}, []) (NoteOn 0 64 20 0)) \<and>
   intermediate_step ({}, []) (NoteOff 0 64 0 480) = ({}, [NoteOff 0 64 0 480]) \<and>
   intermediate_track [NoteOn 0 64 20 0, NoteOff 0 64 0 480] = [NoteOff 0 64 0 480] \<and>
   intermediate_track
     [NoteOn 0 60 80 0, NoteOn 0 64 80 0, NoteOn 0 67 80 0, NoteOn 0 72 80 0,
      NoteOn 0 48 80 0, NoteOff 0 48 0 480]
   = [NoteOn 0 60 80 0, NoteOn 0 64 80 0, NoteOn 0 67 80 0, NoteOn 0 72 80 0,
      NoteOff 0 48 0 480]"
proof -
  have "intermediate_track
     [NoteOn 0 60 80 0, NoteOn 0 64 80 0, NoteOn 0 67 80 0, NoteOn 0 72 80 0,
      NoteOn 0 48 80 0, NoteOff 0 48 0 480]
   = [NoteOn 0 60 80 0, NoteOn 0 64 80 0, NoteOn 0 67 80 0, NoteOn 0 72 80 0,
      NoteOff 0 48 0 480]"
    by code_simp
  then show ?thesis
    by (simp add: intermediate_track_def intermediate_step_def min_velocity_def)
qed

section \<open>Intermediate simplification: the polyphony bound\<close>

lemma replay_step_start:
  "is_note_start m \<Longrightarrow> replay_step (a, mx) m = (insert (pitch m) a, max mx (card (insert (pitch m) a)))"
  by (simp add: replay_step_def Let_def)

lemma replay_step_stop:
  "is_note_stop m \<Longrightarrow> replay_step (a, mx) m = (a - {pitch m}, max mx (card (a - {pitch m})))"
  by (cases m) (simp_all add: replay_step_def Let_def)

lemma replay_step_other:
  "\<not> is_note_start m \<Longrightarrow> \<not> is_note_stop m \<Longrightarrow> replay_step (a, mx) m = (a, max mx (card a))"
  by (simp add: replay_step_def)

text \<open>
  The loop invariant: the active set is finite with at most four members, replaying the
  track built so far ends in that very set with a maximum of at most four, and every
  note start of the track has velocity at least 40.
\<close>

lemma intermediate_step_invariant:
  assumes fin: "finite a" and bound: "card a \<le> 4"
    and rep: "foldl replay_step ({}, 0) tr = (a, mx)" and mx: "mx \<le> 4"
    and vel: "\<forall>x \<in> set tr. is_note_start x \<longrightarrow> 40 \<le> velocity x"
    and step: "intermediate_step (a, tr) m = (a', tr')"
  shows "finite a' \<and> card a' \<le> 4 \<and> (\<exists>mx'. foldl replay_step ({}, 0) tr' = (a', mx') \<and> mx' \<le> 4)
         \<and> (\<forall>x \<in> set tr'. is_note_start x \<longrightarrow> 40 \<le> velocity x)"
proof -
  have keep: ?thesis if "a' = a" "tr' = tr"
    using that fin bound rep mx vel by simp
  have admit: ?thesis
    if "is_note_start m" "40 \<le> velocity m" "card a < 4" "a' = insert (pitch m) a" "tr' = tr @ [m]"
  proof -
    have "card (insert (pitch m) a) \<le> 4"
      using that(3) fin by (simp add: card_insert_if)
    then show ?thesis
      using that fin rep mx vel by (simp add: replay_step_start)
  qed
  show ?thesis
  proof (cases "is_note_start m")
    case start: True
    show ?thesis
    proof (cases "velocity m < 40")
      case True
      with start step show ?thesis
        by (intro keep) (simp_all add: intermediate_step_def min_velocity_def)
    next
      case loud: False
      show ?thesis
      proof (cases "card a \<ge> 4")
        case False
        with start loud step show ?thesis
          by (intro admit) (simp_all add: intermediate_step_def min_velocity_def max_polyphony_def)
      next
        case full: True
        then have ne: "a \<noteq> {}" by auto
        show ?thesis
        proof (cases "pitch m > Min a")
          case False
          with start loud full ne step show ?thesis
            by (intro keep)
               (simp_all add: intermediate_step_def min_velocity_def max_polyphony_def Let_def)
        next
          case True
          with start loud full ne step
          have a': "a' = insert (pitch m) (a - {Min a})"
            and tr': "tr' = tr @ [NoteOff 0 (Min a) 0 0, m]"
            by (simp_all add: intermediate_step_def min_velocity_def max_polyphony_def Let_def)
          have "Min a \<in> a" using fin ne by simp
          then have c3: "card (a - {Min a}) \<le> 3" using fin bound by simp
          then have c4: "card (insert (pitch m) (a - {Min a})) \<le> 4"
            using fin by (simp add: card_insert_if)
          have "foldl replay_step ({}, 0) tr' =
                  (a', max (max mx (card (a - {Min a}))) (card (insert (pitch m) (a - {Min a}))))"
            using start by (simp add: tr' a' rep replay_step_stop replay_step_start)
          moreover have "max (max mx (card (a - {Min a}))) (card (insert (pitch m) (a - {Min a}))) \<le> 4"
            using mx c3 c4 by simp
          moreover have "\<forall>x \<in> set tr'. is_note_start x \<longrightarrow> 40 \<le> velocity x"
            using vel loud by (simp add: tr')
          ultimately show ?thesis using fin c4 a' by simp
        qed
      qed
    qed
  next
    case nostart: False
    show ?thesis
    proof (cases "is_note_stop m")
      case True
      then have a': "a' = a - {pitch m}" and tr': "tr' = tr @ [m]"
        using step by (simp_all add: intermediate_step_stop)
      have "card (a - {pitch m}) \<le> 4"
        using fin bound by (meson card_Diff1_le le_trans)
      then show ?thesis
        using True nostart fin rep mx vel by (simp add: a' tr' replay_step_stop)
    next
      case False
      then have "a' = a" and "tr' = tr @ [m]"
        using nostart step by (simp_all add: intermediate_step_def)
      then show ?thesis
        using False nostart fin bound rep mx vel by (simp add: replay_step_other)
    qed
  qed
qed

lemma intermediate_fold_invariant:
  assumes "finite a" "card a \<le> 4" "foldl replay_step ({}, 0) tr = (a, mx)" "mx \<le> 4"
    "\<forall>x \<in> set tr. is_note_start x \<longrightarrow> 40 \<le> velocity x"
  shows "\<exists>a' mx'. foldl replay_step ({}, 0) (snd (foldl intermediate_step (a, tr) t)) = (a', mx')
           \<and> mx' \<le> 4
           \<and> (\<forall>x \<in> set (snd (foldl intermediate_step (a, tr) t)). is_note_start x \<longrightarrow> 40 \<le> velocity x)"
  using assms
proof (induction t arbitrary: a tr mx)
  case Nil
  then show ?case by simp
next
  case (Cons m ms)
  obtain a' tr' where step: "intermediate_step (a, tr) m = (a', tr')"
    by (cases "intermediate_step (a, tr) m")
  from intermediate_step_invariant [OF Cons.prems step]
  obtain mx' where "finite a'" "card a' \<le> 4" "foldl replay_step ({}, 0) tr' = (a', mx')"
    "mx' \<le> 4" "\<forall>x \<in> set tr'. is_note_start x \<longrightarrow> 40 \<le> velocity x"
    by blast
  from Cons.IH [OF this] show ?case by (simp add: step)
qed

text \<open>
  Within one track the bound holds: replaying one output track from an empty set, at
  most 4 pitches are ever sounding, and no note start has a velocity below 40.
\<close>

lemma intermediate_track_bounded:
  "replay_max_active [intermediate_track t] \<le> 4 \<and>
   (\<forall>m \<in> set (intermediate_track t). is_note_start m \<longrightarrow> 40 \<le> velocity m)"
proof -
  have "\<exists>a' mx'. foldl replay_step ({}, 0) (snd (foldl intermediate_step ({}, []) t)) = (a', mx')
           \<and> mx' \<le> 4
           \<and> (\<forall>x \<in> set (snd (foldl intermediate_step ({}, []) t)). is_note_start x \<longrightarrow> 40 \<le> velocity x)"
    by (rule intermediate_fold_invariant [where mx = 0]) simp_all
  then show ?thesis
    by (auto simp add: intermediate_track_def replay_max_active_def)
qed

text \<open>
  C3. Intermediate simplification is documented to leave at most 4 simultaneous notes,
  and the repository's test replays the whole output, all tracks, with one set of
  sounding pitches and asserts that it never holds more than 4. The code empties its
  active set at the start of every track. On a file of two tracks, four notes started in
  the first and a fifth in the second, all at tick 0 and of five different pitches, the
  output equals the input and the replay of the test reaches five sounding pitches;
  counting sounding notes instead of pitches gives five as well.
\<close>

theorem intermediate_two_tracks_exceed:
  "simplify_intermediate
     \<lparr>ticks_per_beat = 480,
      tracks = [[NoteOn 0 60 80 0, NoteOn 0 64 80 0, NoteOn 0 67 80 0, NoteOn 0 72 80 0],
                [NoteOn 0 48 80 0]]\<rparr>
   = \<lparr>ticks_per_beat = 480,
      tracks = [[NoteOn 0 60 80 0, NoteOn 0 64 80 0, NoteOn 0 67 80 0, NoteOn 0 72 80 0],
                [NoteOn 0 48 80 0]]\<rparr> \<and>
   replay_max_active
     [[NoteOn 0 60 80 0, NoteOn 0 64 80 0, NoteOn 0 67 80 0, NoteOn 0 72 80 0],
      [NoteOn 0 48 80 0]] = 5 \<and>
   count_max_active
     [[NoteOn 0 60 80 0, NoteOn 0 64 80 0, NoteOn 0 67 80 0, NoteOn 0 72 80 0],
      [NoteOn 0 48 80 0]] = 5 \<and>
   \<not> replay_max_active (tracks (simplify_intermediate
     \<lparr>ticks_per_beat = 480,
      tracks = [[NoteOn 0 60 80 0, NoteOn 0 64 80 0, NoteOn 0 67 80 0, NoteOn 0 72 80 0],
                [NoteOn 0 48 80 0]]\<rparr>)) \<le> 4"
  by (simp add: simplify_intermediate_def intermediate_track_def intermediate_step_def
        min_velocity_def max_polyphony_def replay_max_active_def replay_step_def
        count_max_active_def count_step_def)

section \<open>The analyser: degenerate inputs and the bucket window\<close>

lemma note_events_track_length:
  "length (note_events_track a t acc) = length acc + length (filter is_note_start t)"
  by (induction t arbitrary: a acc) (simp_all add: Let_def)

lemma collect_note_events_length_aux:
  "length (foldl (\<lambda>note_events t. note_events_track 0 t note_events) acc ts)
     = length acc + length (filter is_note_start (concat ts))"
  by (induction ts arbitrary: acc) (simp_all add: note_events_track_length)

lemma collect_note_events_empty:
  "collect_note_events ts = [] \<longleftrightarrow> (\<forall>t \<in> set ts. \<forall>m \<in> set t. \<not> is_note_start m)"
proof -
  have "collect_note_events ts = [] \<longleftrightarrow> length (collect_note_events ts) = 0" by simp
  also have "\<dots> \<longleftrightarrow> filter is_note_start (concat ts) = []"
    by (simp add: collect_note_events_def collect_note_events_length_aux)
  also have "\<dots> \<longleftrightarrow> (\<forall>t \<in> set ts. \<forall>m \<in> set t. \<not> is_note_start m)"
    by (auto simp add: filter_empty_conv)
  finally show ?thesis .
qed


text \<open>
  C4, as the code has it. The first step of \<open>analyse\<close> is \<open>mid.length\<close>; when that
  raises, \<open>analyse\<close> raises the same exception. When it returns the duration, and the file
  has no note start of positive velocity or the duration is exactly 0, \<open>analyse\<close> returns
  level 1 with the label \<open>beginner\<close>, the five metrics at 0, and \<open>duration_seconds\<close>
  equal to the duration of the file. This holds for every \<open>ticks_per_beat\<close>, also where
  the bucketing would divide by zero: the scorer and the bucketing are not reached.
\<close>

theorem analyse_degenerate:
  assumes "(\<forall>t \<in> set (tracks mid). \<forall>m \<in> set t. \<not> is_note_start m) \<or> duration = 0"
  shows "analyse (Inr duration) mid =
           Inr \<lparr>level = 1, label = ''beginner'', notes_per_second = 0, avg_polyphony = 0,
                pitch_range = 0, max_hand_span = 0, total_notes = 0,
                duration_seconds = duration\<rparr> \<and>
         analyse (Inl e) mid = Inl e"
  using assms by (auto simp add: analyse_def collect_note_events_empty Let_def)

theorem analyse_degenerate_witness:
  "((\<forall>t \<in> set (tracks \<lparr>ticks_per_beat = 480, tracks = [[EndOfTrack 480]]\<rparr>).
      \<forall>m \<in> set t. \<not> is_note_start m) \<or> (1 / 2 :: rat) = 0) \<and>
   analyse (Inr (1 / 2)) \<lparr>ticks_per_beat = 480, tracks = [[EndOfTrack 480]]\<rparr> =
     Inr \<lparr>level = 1, label = ''beginner'', notes_per_second = 0, avg_polyphony = 0,
          pitch_range = 0, max_hand_span = 0, total_notes = 0, duration_seconds = 1 / 2\<rparr> \<and>
   analyse (Inr 0) \<lparr>ticks_per_beat = 480, tracks = [[NoteOn 0 60 80 0, NoteOn 0 64 80 0]]\<rparr> =
     Inr \<lparr>level = 1, label = ''beginner'', notes_per_second = 0, avg_polyphony = 0,
          pitch_range = 0, max_hand_span = 0, total_notes = 0, duration_seconds = 0\<rparr> \<and>
   analyse (Inl ValueError) \<lparr>ticks_per_beat = 480, tracks = [[EndOfTrack 480]]\<rparr>
     = Inl ValueError"
proof -
  have h: "(\<forall>t \<in> set (tracks \<lparr>ticks_per_beat = 480, tracks = [[EndOfTrack 480]]\<rparr>).
      \<forall>m \<in> set t. \<not> is_note_start m) \<or> (1 / 2 :: rat) = 0" by simp
  have z: "(\<forall>t \<in> set (tracks \<lparr>ticks_per_beat = 480,
                tracks = [[NoteOn 0 60 80 0, NoteOn 0 64 80 0]]\<rparr>).
      \<forall>m \<in> set t. \<not> is_note_start m) \<or> (0 :: rat) = 0" by simp
  from h analyse_degenerate [OF h, of ValueError] analyse_degenerate [OF z, of ValueError]
  show ?thesis by simp
qed

text \<open>
  C4, as stated, fails: a file without notes that lasts half a second (one
  \<open>end_of_track\<close> after 480 ticks, at 480 ticks per beat and the default tempo) gets a
  report whose \<open>duration_seconds\<close> is one half, not 0.
\<close>

theorem analyse_degenerate_duration_kept:
  "collect_note_events (tracks \<lparr>ticks_per_beat = 480, tracks = [[EndOfTrack 480]]\<rparr>) = [] \<and>
   analyse (Inr (1 / 2)) \<lparr>ticks_per_beat = 480, tracks = [[EndOfTrack 480]]\<rparr> =
     Inr \<lparr>level = 1, label = ''beginner'', notes_per_second = 0, avg_polyphony = 0,
          pitch_range = 0, max_hand_span = 0, total_notes = 0, duration_seconds = 1 / 2\<rparr> \<and>
   (1 / 2 :: rat) \<noteq> 0"
  by (simp add: analyse_def collect_note_events_def)




text \<open>
  The float arithmetic at work: one note in a file that lasts the float \<open>0.1\<close> seconds.
  The exact quotient of 1 by that float is a little below 10; rounded to a float it is
  10, which selects the highest sub-score for the note density.
\<close>

lemma analyse_tenth_of_a_second:
  "analyse (Inr float_tenth) \<lparr>ticks_per_beat = 480, tracks = [[NoteOn 0 60 80 0]]\<rparr> =
     Inr \<lparr>level = 3, label = ''easy'', notes_per_second = 10, avg_polyphony = 1,
          pitch_range = 0, max_hand_span = 0, total_notes = 1,
          duration_seconds = float_tenth\<rparr>"
  by code_simp

section \<open>Beginner simplification: the melody line\<close>

lemma max_by_note_in: "max_by_note b ms \<in> set (b # ms)"
  by (induction ms arbitrary: b) auto

lemma max_by_note_ge_best: "pitch b \<le> pitch (max_by_note b ms)"
proof (induction ms arbitrary: b)
  case Nil
  show ?case by simp
next
  case (Cons m ms)
  have "pitch b \<le> pitch (if pitch m > pitch b then m else b)" by simp
  also have "\<dots> \<le> pitch (max_by_note (if pitch m > pitch b then m else b) ms)"
    by (rule Cons.IH)
  finally show ?case by simp
qed

lemma max_by_note_ge: "x \<in> set (b # ms) \<Longrightarrow> pitch x \<le> pitch (max_by_note b ms)"
proof (induction ms arbitrary: b)
  case Nil
  then show ?case by simp
next
  case (Cons m ms)
  let ?b' = "if pitch m > pitch b then m else b"
  from Cons.prems consider "x = b" | "x = m" | "x \<in> set ms" by auto
  then show ?case
  proof cases
    case 1
    have "pitch b \<le> pitch ?b'" by simp
    also have "\<dots> \<le> pitch (max_by_note ?b' ms)" by (rule max_by_note_ge_best)
    finally show ?thesis using 1 by simp
  next
    case 2
    have "pitch m \<le> pitch ?b'" by simp
    also have "\<dots> \<le> pitch (max_by_note ?b' ms)" by (rule max_by_note_ge_best)
    finally show ?thesis using 2 by simp
  next
    case 3
    then have "x \<in> set (?b' # ms)" by simp
    from Cons.IH [OF this] show ?thesis by simp
  qed
qed

lemma melody_step_skip:
  "filter is_note_start msgs = [] \<Longrightarrow> melody_step q msgs st = st"
  by (cases st) (simp add: melody_step_def)

lemma melody_step_emit:
  assumes "filter is_note_start msgs = n # ns"
  shows "melody_step q msgs (cur, lst, trk) =
     (Some (pitch (max_by_note n ns)), q,
      trk @ (case cur of
               None \<Rightarrow> [NoteOn 0 (pitch (max_by_note n ns)) (min (velocity (max_by_note n ns)) 100) (q - lst)]
             | Some c \<Rightarrow> [NoteOff 0 c 0 (q - lst),
                          NoteOn 0 (pitch (max_by_note n ns)) (min (velocity (max_by_note n ns)) 100) 0]))"
  using assms by (simp add: melody_step_def Let_def split: option.splits)

lemma highest_is_start:
  assumes "filter is_note_start msgs = n # ns"
  shows "max_by_note n ns \<in> set msgs \<and> is_note_start (max_by_note n ns) \<and>
         0 < velocity (max_by_note n ns) \<and>
         (\<forall>m \<in> set msgs. is_note_start m \<longrightarrow> pitch m \<le> pitch (max_by_note n ns))"
proof -
  have mem: "max_by_note n ns \<in> set (filter is_note_start msgs)"
    using max_by_note_in [of n ns] assms by simp
  then have st: "is_note_start (max_by_note n ns)" and inm: "max_by_note n ns \<in> set msgs" by simp_all
  from st have "0 < velocity (max_by_note n ns)" by (cases "max_by_note n ns") simp_all
  moreover have "pitch m \<le> pitch (max_by_note n ns)" if "m \<in> set msgs" "is_note_start m" for m
  proof -
    from that have "m \<in> set (filter is_note_start msgs)" by simp
    then have "m \<in> set (n # ns)" using assms by simp
    then show ?thesis by (rule max_by_note_ge)
  qed
  ultimately show ?thesis using st inm by blast
qed


text \<open>
  The loop invariant: either no note was emitted yet and the melody track is empty, or
  the track is a sequence of note-on/note-off pairs followed by the note-on of the
  current note; every note-on has positive velocity, and every note-on after the first
  has delta time 0.
\<close>

lemma melody_step_shape:
  assumes inv: "(cur = None \<and> trk = []) \<or>
      (\<exists>c v t prs. cur = Some c \<and> 0 < v \<and>
         trk = concat (map (\<lambda>(p, v, a, b). [NoteOn 0 p v a, NoteOff 0 p 0 b]) prs) @ [NoteOn 0 c v t] \<and>
         (prs \<noteq> [] \<longrightarrow> t = 0) \<and>
         (\<forall>(p, v, a, b) \<in> set prs. 0 < v) \<and>
         (\<forall>(p, v, a, b) \<in> set (tl prs). a = 0))"
    and step: "melody_step q msgs (cur, lst, trk) = (cur', lst', trk')"
  shows "(cur' = None \<and> trk' = []) \<or>
      (\<exists>c v t prs. cur' = Some c \<and> 0 < v \<and>
         trk' = concat (map (\<lambda>(p, v, a, b). [NoteOn 0 p v a, NoteOff 0 p 0 b]) prs) @ [NoteOn 0 c v t] \<and>
         (prs \<noteq> [] \<longrightarrow> t = 0) \<and>
         (\<forall>(p, v, a, b) \<in> set prs. 0 < v) \<and>
         (\<forall>(p, v, a, b) \<in> set (tl prs). a = 0))"
proof (cases "filter is_note_start msgs")
  case Nil
  then have "cur' = cur" "trk' = trk" using step by (simp_all add: melody_step_skip)
  with inv show ?thesis by simp
next
  case (Cons n ns)
  let ?h = "max_by_note n ns"
  let ?v = "min (velocity ?h) 100"
  have vpos: "0 < ?v" using highest_is_start [OF Cons] by simp
  from inv show ?thesis
  proof (elim disjE conjE exE)
    assume "cur = None" "trk = []"
    then have "(cur', lst', trk') = (Some (pitch ?h), q, [NoteOn 0 (pitch ?h) ?v (q - lst)])"
      using step melody_step_emit [OF Cons, of q cur lst trk] by simp
    then have "cur' = Some (pitch ?h)" "trk' = [NoteOn 0 (pitch ?h) ?v (q - lst)]"
      by simp_all
    then have "cur' = Some (pitch ?h) \<and> 0 < ?v \<and>
         trk' = concat (map (\<lambda>(p, v, a, b). [NoteOn 0 p v a, NoteOff 0 p 0 b]) [])
                  @ [NoteOn 0 (pitch ?h) ?v (q - lst)] \<and>
         (([] :: (int \<times> int \<times> int \<times> int) list) \<noteq> [] \<longrightarrow> q - lst = 0) \<and>
         (\<forall>(p, v, a, b) \<in> set ([] :: (int \<times> int \<times> int \<times> int) list). 0 < v) \<and>
         (\<forall>(p, v, a, b) \<in> set (tl ([] :: (int \<times> int \<times> int \<times> int) list)). a = 0)"
      using vpos by simp
    then show ?thesis by blast
  next
    fix c v t prs
    assume a: "cur = Some c" "0 < v"
      "trk = concat (map (\<lambda>(p, v, a, b). [NoteOn 0 p v a, NoteOff 0 p 0 b]) prs) @ [NoteOn 0 c v t]"
      "prs \<noteq> [] \<longrightarrow> t = 0"
      "\<forall>(p, v, a, b) \<in> set prs. 0 < v"
      "\<forall>(p, v, a, b) \<in> set (tl prs). a = 0"
    let ?prs = "prs @ [(c, v, t, q - lst)]"
    have "(cur', lst', trk') =
        (Some (pitch ?h), q, trk @ [NoteOff 0 c 0 (q - lst), NoteOn 0 (pitch ?h) ?v 0])"
      using step a(1) melody_step_emit [OF Cons, of q cur lst trk] by simp
    then have "cur' = Some (pitch ?h)"
      and "trk' = trk @ [NoteOff 0 c 0 (q - lst), NoteOn 0 (pitch ?h) ?v 0]"
      by simp_all
    then have "cur' = Some (pitch ?h) \<and> 0 < ?v \<and>
         trk' = concat (map (\<lambda>(p, v, a, b). [NoteOn 0 p v a, NoteOff 0 p 0 b]) ?prs)
                  @ [NoteOn 0 (pitch ?h) ?v 0] \<and>
         (?prs \<noteq> [] \<longrightarrow> (0::int) = 0) \<and>
         (\<forall>(p, v, a, b) \<in> set ?prs. 0 < v) \<and>
         (\<forall>(p, v, a, b) \<in> set (tl ?prs). a = 0)"
      using vpos a(2-6) by (cases prs) auto
    then show ?thesis by blast
  qed
qed

lemma melody_fold_shape:
  assumes "(cur = None \<and> trk = []) \<or>
      (\<exists>c v t prs. cur = Some c \<and> 0 < v \<and>
         trk = concat (map (\<lambda>(p, v, a, b). [NoteOn 0 p v a, NoteOff 0 p 0 b]) prs) @ [NoteOn 0 c v t] \<and>
         (prs \<noteq> [] \<longrightarrow> t = 0) \<and>
         (\<forall>(p, v, a, b) \<in> set prs. 0 < v) \<and>
         (\<forall>(p, v, a, b) \<in> set (tl prs). a = 0))"
    and "foldl (\<lambda>st q_time. case map_of ge q_time of
                             None \<Rightarrow> st
                           | Some msgs \<Rightarrow> melody_step q_time msgs st) (cur, lst, trk) qs
           = (cur', lst', trk')"
  shows "(cur' = None \<and> trk' = []) \<or>
      (\<exists>c v t prs. cur' = Some c \<and> 0 < v \<and>
         trk' = concat (map (\<lambda>(p, v, a, b). [NoteOn 0 p v a, NoteOff 0 p 0 b]) prs) @ [NoteOn 0 c v t] \<and>
         (prs \<noteq> [] \<longrightarrow> t = 0) \<and>
         (\<forall>(p, v, a, b) \<in> set prs. 0 < v) \<and>
         (\<forall>(p, v, a, b) \<in> set (tl prs). a = 0))"
  using assms
proof (induction qs arbitrary: cur lst trk)
  case Nil
  then show ?case by simp
next
  case (Cons q qs)
  show ?case
  proof (cases "map_of ge q")
    case None
    with Cons.prems(2) have "foldl (\<lambda>st q_time. case map_of ge q_time of
                             None \<Rightarrow> st
                           | Some msgs \<Rightarrow> melody_step q_time msgs st) (cur, lst, trk) qs
           = (cur', lst', trk')" by simp
    from Cons.IH [OF Cons.prems(1) this] show ?thesis .
  next
    case (Some msgs)
    obtain c1 l1 t1 where s1: "melody_step q msgs (cur, lst, trk) = (c1, l1, t1)"
      by (cases "melody_step q msgs (cur, lst, trk)")
    with Some Cons.prems(2) have "foldl (\<lambda>st q_time. case map_of ge q_time of
                             None \<Rightarrow> st
                           | Some msgs \<Rightarrow> melody_step q_time msgs st) (c1, l1, t1) qs
           = (cur', lst', trk')" by simp
    from Cons.IH [OF melody_step_shape [OF Cons.prems(1) s1] this] show ?thesis .
  qed
qed

lemma count_note_pairs:
  "\<forall>(p, v, a, b) \<in> set prs. 0 < v \<Longrightarrow>
     foldl count_step (0, mx)
       (concat (map (\<lambda>(p, v, a, b). [NoteOn 0 p v a, NoteOff 0 p 0 b]) prs))
     = (0, if prs = [] then mx else max mx 1)"
proof (induction prs arbitrary: mx)
  case Nil
  show ?case by simp
next
  case (Cons x xs)
  obtain p v a b where x: "x = (p, v, a, b)" by (cases x)
  from Cons.prems have v: "0 < v" and rest: "\<forall>(p, v, a, b) \<in> set xs. 0 < v" by (auto simp add: x)
  have "count_step (count_step (0, mx) (NoteOn 0 p v a)) (NoteOff 0 p 0 b) = (0, max mx 1)"
    using v by (simp add: count_step_def Let_def)
  then show ?case using Cons.IH [OF rest, of "max mx 1"] by (simp add: x)
qed

text \<open>
  C6. The output of Beginner simplification is monophonic. The counter of sounding notes
  over the whole output never exceeds 1. The melody track is a sequence of pairs, a
  note-on of positive velocity and the note-off of the same pitch, closed by
  \<open>end_of_track\<close>: every note-on after the first has delta time 0, so it stands at the
  time point of the note-off before it, and the last note-on has its note-off too. The
  tempo track holds no note message.
\<close>

theorem beginner_monophonic:
  assumes "simplify_beginner mid = Inr out"
  shows "count_max_active (tracks out) \<le> 1 \<and>
     (\<exists>tempo_track prs.
        tracks out = [tempo_track,
          concat (map (\<lambda>(p, v, a, b). [NoteOn 0 p v a, NoteOff 0 p 0 b]) prs) @ [EndOfTrack 0]] \<and>
        (\<forall>m \<in> set tempo_track. \<not> is_note_msg m) \<and>
        (\<forall>(p, v, a, b) \<in> set prs. 0 < v) \<and>
        (\<forall>(p, v, a, b) \<in> set (tl prs). a = 0))"
proof -
  let ?grid = "ticks_per_beat mid"
  let ?tempo = "[SetTempo (py_int (of_int (find_tempo (tracks mid)) * (5 / 4))) 0, EndOfTrack 0]"
  from assms obtain ge where
    ge: "group_events ?grid (sort_key event_key (collect_events (tracks mid))) [] = Inr ge"
    by (auto simp add: simplify_beginner_def Let_def split: sum.splits)
  obtain cur lst trk where ml: "melody_loop ge = (cur, lst, trk)" by (cases "melody_loop ge")
  have out: "tracks out = [?tempo,
      (case cur of None \<Rightarrow> trk | Some c \<Rightarrow> trk @ [NoteOff 0 c 0 ?grid]) @ [EndOfTrack 0]]"
    using assms ge ml by (auto simp add: simplify_beginner_def Let_def)
  have shape: "(cur = None \<and> trk = []) \<or>
      (\<exists>c v t prs. cur = Some c \<and> 0 < v \<and>
         trk = concat (map (\<lambda>(p, v, a, b). [NoteOn 0 p v a, NoteOff 0 p 0 b]) prs) @ [NoteOn 0 c v t] \<and>
         (prs \<noteq> [] \<longrightarrow> t = 0) \<and>
         (\<forall>(p, v, a, b) \<in> set prs. 0 < v) \<and>
         (\<forall>(p, v, a, b) \<in> set (tl prs). a = 0))"
    by (rule melody_fold_shape [where cur = None and trk = "[]" and lst = 0])
       (use ml in \<open>simp_all add: melody_loop_def\<close>)
  have "\<exists>prs. tracks out = [?tempo,
          concat (map (\<lambda>(p, v, a, b). [NoteOn 0 p v a, NoteOff 0 p 0 b]) prs) @ [EndOfTrack 0]] \<and>
        (\<forall>(p, v, a, b) \<in> set prs. 0 < v) \<and>
        (\<forall>(p, v, a, b) \<in> set (tl prs). a = 0)"
    using shape
  proof (elim disjE conjE exE)
    assume "cur = None" "trk = []"
    then have "tracks out = [?tempo,
          concat (map (\<lambda>(p, v, a, b). [NoteOn 0 p v a, NoteOff 0 p 0 b]) []) @ [EndOfTrack 0]] \<and>
        (\<forall>(p, v, a, b) \<in> set ([] :: (int \<times> int \<times> int \<times> int) list). 0 < v) \<and>
        (\<forall>(p, v, a, b) \<in> set (tl ([] :: (int \<times> int \<times> int \<times> int) list)). a = 0)"
      using out by simp
    then show ?thesis by blast
  next
    fix c v t prs
    assume a: "cur = Some c" "0 < v"
      "trk = concat (map (\<lambda>(p, v, a, b). [NoteOn 0 p v a, NoteOff 0 p 0 b]) prs) @ [NoteOn 0 c v t]"
      "prs \<noteq> [] \<longrightarrow> t = 0"
      "\<forall>(p, v, a, b) \<in> set prs. 0 < v"
      "\<forall>(p, v, a, b) \<in> set (tl prs). a = 0"
    let ?prs = "prs @ [(c, v, t, ?grid)]"
    have "tracks out = [?tempo,
          concat (map (\<lambda>(p, v, a, b). [NoteOn 0 p v a, NoteOff 0 p 0 b]) ?prs) @ [EndOfTrack 0]] \<and>
        (\<forall>(p, v, a, b) \<in> set ?prs. 0 < v) \<and>
        (\<forall>(p, v, a, b) \<in> set (tl ?prs). a = 0)"
      using out a by (cases prs) auto
    then show ?thesis by blast
  qed
  then obtain prs where n: "tracks out = [?tempo,
          concat (map (\<lambda>(p, v, a, b). [NoteOn 0 p v a, NoteOff 0 p 0 b]) prs) @ [EndOfTrack 0]]"
        "\<forall>(p, v, a, b) \<in> set prs. 0 < v"
        "\<forall>(p, v, a, b) \<in> set (tl prs). a = 0"
    by blast
  have "count_max_active (tracks out) = (if prs = [] then 0 else 1)"
    using count_note_pairs [OF n(2), of 0]
    by (simp add: n(1) count_max_active_def count_step_def)
  then have "count_max_active (tracks out) \<le> 1" by simp
  moreover have "\<forall>m \<in> set ?tempo. \<not> is_note_msg m" by simp
  ultimately show ?thesis using n by blast
qed

theorem beginner_monophonic_witness:
  "simplify_beginner
     \<lparr>ticks_per_beat = 480,
      tracks = [[NoteOn 0 60 80 0, NoteOn 0 64 80 0, NoteOn 0 67 80 0, NoteOff 0 60 0 480,
                 NoteOff 0 64 0 0, NoteOn 0 72 120 0, NoteOff 0 67 0 0, EndOfTrack 0]]\<rparr>
   = Inr \<lparr>ticks_per_beat = 480,
          tracks = [[SetTempo 625000 0, EndOfTrack 0],
                    [NoteOn 0 67 80 0, NoteOff 0 67 0 480, NoteOn 0 72 100 0,
                     NoteOff 0 72 0 480, EndOfTrack 0]]\<rparr> \<and>
   count_max_active [[SetTempo 625000 0, EndOfTrack 0],
                    [NoteOn 0 67 80 0, NoteOff 0 67 0 480, NoteOn 0 72 100 0,
                     NoteOff 0 72 0 480, EndOfTrack 0]] \<le> 1"
proof -
  have h: "simplify_beginner
     \<lparr>ticks_per_beat = 480,
      tracks = [[NoteOn 0 60 80 0, NoteOn 0 64 80 0, NoteOn 0 67 80 0, NoteOff 0 60 0 480,
                 NoteOff 0 64 0 0, NoteOn 0 72 120 0, NoteOff 0 67 0 0, EndOfTrack 0]]\<rparr>
   = Inr \<lparr>ticks_per_beat = 480,
          tracks = [[SetTempo 625000 0, EndOfTrack 0],
                    [NoteOn 0 67 80 0, NoteOff 0 67 0 480, NoteOn 0 72 100 0,
                     NoteOff 0 72 0 480, EndOfTrack 0]]\<rparr>"
    by code_simp
  from beginner_monophonic [OF h] have
    "count_max_active (tracks \<lparr>ticks_per_beat = 480,
          tracks = [[SetTempo 625000 0, EndOfTrack 0],
                    [NoteOn 0 67 80 0, NoteOff 0 67 0 480, NoteOn 0 72 100 0,
                     NoteOff 0 72 0 480, EndOfTrack 0]]\<rparr>) \<le> 1" by blast
  with h show ?thesis by simp
qed

section \<open>Beginner simplification: the groups and the selected notes\<close>

lemma map_of_setdefault_append:
  "map_of (setdefault_append k v al) q =
     (if q = k then Some ((case map_of al k of None \<Rightarrow> [] | Some vs \<Rightarrow> vs) @ [v])
      else map_of al q)"
  by (induction al) auto

lemma keys_setdefault_append:
  "map fst (setdefault_append k v al) =
     (if k \<in> set (map fst al) then map fst al else map fst al @ [k])"
  by (induction al) (fastforce simp add: image_iff)+

lemma distinct_setdefault_append:
  "distinct (map fst al) \<Longrightarrow> distinct (map fst (setdefault_append k v al))"
  by (simp add: keys_setdefault_append)

lemma group_events_distinct:
  "group_events grid es acc = Inr ge \<Longrightarrow> distinct (map fst acc) \<Longrightarrow> distinct (map fst ge)"
proof (induction es arbitrary: acc)
  case Nil
  then show ?case by simp
next
  case (Cons e es)
  obtain t m where e: "e = (t, m)" by (cases e)
  from Cons.prems(1) obtain q where q: "quantise_tick t grid = Inr q"
    and rest: "group_events grid es (setdefault_append q m acc) = Inr ge"
    by (auto simp add: e split: sum.splits)
  from Cons.IH [OF rest distinct_setdefault_append [OF Cons.prems(2)]] show ?case .
qed

lemma group_events_lookup:
  "group_events grid es acc = Inr ge \<Longrightarrow>
     map_of ge q =
       (case map_of acc q of
          None \<Rightarrow> (if filter (\<lambda>e. quantise_tick (fst e) grid = Inr q) es = [] then None
                    else Some (map snd (filter (\<lambda>e. quantise_tick (fst e) grid = Inr q) es)))
        | Some old \<Rightarrow> Some (old @ map snd (filter (\<lambda>e. quantise_tick (fst e) grid = Inr q) es)))"
proof (induction es arbitrary: acc)
  case Nil
  then show ?case by (simp split: option.splits)
next
  case (Cons e es)
  obtain t m where e: "e = (t, m)" by (cases e)
  from Cons.prems obtain q' where q': "quantise_tick t grid = Inr q'"
    and rest: "group_events grid es (setdefault_append q' m acc) = Inr ge"
    by (auto simp add: e split: sum.splits)
  show ?case
    by (simp add: Cons.IH [OF rest] map_of_setdefault_append e q' split: option.splits)
qed


lemma melody_fold_starts:
  "\<exists>new.
     filter is_note_start
       (snd (snd (foldl (\<lambda>st q_time. case look q_time of
                                         None \<Rightarrow> st
                                       | Some msgs \<Rightarrow> melody_step q_time msgs st)
                    (cur, lst, trk) qs)))
       = filter is_note_start trk @ new \<and>
     list_all2
       (\<lambda>m q. \<exists>msgs h. look q = Some msgs \<and> h \<in> set msgs \<and> is_note_start h \<and>
                 (\<forall>m' \<in> set msgs. is_note_start m' \<longrightarrow> pitch m' \<le> pitch h) \<and>
                 pitch m = pitch h \<and> velocity m = min (velocity h) 100)
       new
       (filter (\<lambda>q. case look q of None \<Rightarrow> False
                                  | Some msgs \<Rightarrow> filter is_note_start msgs \<noteq> []) qs)"
proof (induction qs arbitrary: cur lst trk)
  case Nil
  show ?case by simp
next
  case (Cons q qs)
  let ?F = "\<lambda>st q_time. case look q_time of
                            None \<Rightarrow> st
                          | Some msgs \<Rightarrow> melody_step q_time msgs st"
  let ?has = "\<lambda>q. case look q of None \<Rightarrow> False
                               | Some msgs \<Rightarrow> filter is_note_start msgs \<noteq> []"
  let ?R = "\<lambda>m q. \<exists>msgs h. look q = Some msgs \<and> h \<in> set msgs \<and> is_note_start h \<and>
                 (\<forall>m' \<in> set msgs. is_note_start m' \<longrightarrow> pitch m' \<le> pitch h) \<and>
                 pitch m = pitch h \<and> velocity m = min (velocity h) 100"
  show ?case
  proof (cases "?has q")
    case False
    then have "?F (cur, lst, trk) q = (cur, lst, trk)"
      by (auto simp add: melody_step_skip split: option.splits)
    then have "foldl ?F (cur, lst, trk) (q # qs) = foldl ?F (cur, lst, trk) qs" by simp
    moreover have "filter ?has (q # qs) = filter ?has qs" using False by simp
    ultimately show ?thesis using Cons.IH [of cur lst trk] by simp
  next
    case True
    then obtain msgs n ns where look: "look q = Some msgs"
      and starts: "filter is_note_start msgs = n # ns"
      by (auto split: option.splits simp add: neq_Nil_conv)
    let ?h = "max_by_note n ns"
    let ?on = "\<lambda>d. NoteOn 0 (pitch ?h) (min (velocity ?h) 100) d"
    from highest_is_start [OF starts]
    have h: "?h \<in> set msgs" "is_note_start ?h" "0 < velocity ?h"
      "\<forall>m \<in> set msgs. is_note_start m \<longrightarrow> pitch m \<le> pitch ?h"
      by blast+
    obtain d trk1 where step: "?F (cur, lst, trk) q = (Some (pitch ?h), q, trk1)"
      and trk1: "filter is_note_start trk1 = filter is_note_start trk @ [?on d]"
      using h(3) by (cases cur) (simp_all add: look melody_step_emit [OF starts])
    have r: "?R (?on d) q" using look h by auto
    from Cons.IH [of "Some (pitch ?h)" q trk1] obtain new where
      new: "filter is_note_start (snd (snd (foldl ?F (Some (pitch ?h), q, trk1) qs)))
              = filter is_note_start trk1 @ new"
      "list_all2 ?R new (filter ?has qs)"
      by blast
    have "filter is_note_start (snd (snd (foldl ?F (cur, lst, trk) (q # qs))))
            = filter is_note_start trk @ (?on d # new)"
      using new(1) step trk1 by simp
    moreover have "list_all2 ?R (?on d # new) (filter ?has (q # qs))"
      using True r new(2) by simp
    ultimately show ?thesis by blast
  qed
qed


text \<open>
  C7. Take the note events of the whole file, sorted as the code sorts them. The group
  of a grid time \<open>q\<close> holds the messages whose quantised absolute time is \<open>q\<close>, and the
  slots are the grid times, in ascending order, whose group has a note start of positive
  velocity. The note starts of the melody track correspond to the slots one to one and
  in order: the note of a slot has the pitch of a note start \<open>h\<close> of its group that no
  note start of the group exceeds in pitch, and its velocity is the minimum of the
  velocity of \<open>h\<close> and 100.
\<close>

theorem beginner_selects_highest:
  assumes "simplify_beginner mid = Inr out"
  shows "(let grid = ticks_per_beat mid;
              events = sort_key event_key (collect_events (tracks mid));
              group = (\<lambda>q. map snd (filter (\<lambda>e. quantise_tick (fst e) grid = Inr q) events));
              slots = filter (\<lambda>q. filter is_note_start (group q) \<noteq> [])
                        (sorted_list_of_set
                           {q. \<exists>e \<in> set events. quantise_tick (fst e) grid = Inr q})
          in list_all2
               (\<lambda>m q. \<exists>h \<in> set (group q). is_note_start h \<and>
                          (\<forall>m' \<in> set (group q). is_note_start m' \<longrightarrow> pitch m' \<le> pitch h) \<and>
                          pitch m = pitch h \<and> velocity m = min (velocity h) 100)
               (filter is_note_start (tracks out ! 1)) slots)"
proof -
  let ?grid = "ticks_per_beat mid"
  let ?events = "sort_key event_key (collect_events (tracks mid))"
  let ?sel = "\<lambda>q. filter (\<lambda>e. quantise_tick (fst e) ?grid = Inr q) ?events"
  let ?group = "\<lambda>q. map snd (?sel q)"
  from assms obtain ge where ge: "group_events ?grid ?events [] = Inr ge"
    by (auto simp add: simplify_beginner_def Let_def split: sum.splits)
  obtain cur lst trk where ml: "melody_loop ge = (cur, lst, trk)" by (cases "melody_loop ge")
  have "tracks out ! 1 =
      (case cur of None \<Rightarrow> trk | Some c \<Rightarrow> trk @ [NoteOff 0 c 0 ?grid]) @ [EndOfTrack 0]"
    using assms ge ml by (auto simp add: simplify_beginner_def Let_def)
  then have out: "filter is_note_start (tracks out ! 1) = filter is_note_start trk"
    by (simp split: option.splits)
  have look: "map_of ge q = (if ?sel q = [] then None else Some (?group q))" for q
    using group_events_lookup [OF ge, of q] by simp
  let ?has = "\<lambda>q. case map_of ge q of None \<Rightarrow> False
                                   | Some msgs \<Rightarrow> filter is_note_start msgs \<noteq> []"
  let ?R = "\<lambda>m q. \<exists>msgs h. map_of ge q = Some msgs \<and> h \<in> set msgs \<and> is_note_start h \<and>
                 (\<forall>m' \<in> set msgs. is_note_start m' \<longrightarrow> pitch m' \<le> pitch h) \<and>
                 pitch m = pitch h \<and> velocity m = min (velocity h) 100"
  let ?R' = "\<lambda>m q. \<exists>h \<in> set (?group q). is_note_start h \<and>
                 (\<forall>m' \<in> set (?group q). is_note_start m' \<longrightarrow> pitch m' \<le> pitch h) \<and>
                 pitch m = pitch h \<and> velocity m = min (velocity h) 100"
  from melody_fold_starts [of "map_of ge" None 0 "[]" "sort (map fst ge)"]
  have r: "list_all2 ?R (filter is_note_start trk) (filter ?has (sort (map fst ge)))"
    using ml by (simp add: melody_loop_def)
  have imp: "?R' m q" if "?R m q" for m q
    using that by (auto simp add: look split: if_splits)
  have sel: "list_all2 ?R' (filter is_note_start trk) (filter ?has (sort (map fst ge)))"
    by (rule list_all2_mono [OF r]) (rule imp)
  have has: "?has q \<longleftrightarrow> filter is_note_start (?group q) \<noteq> []" for q
    by (simp add: look)
  have "distinct (map fst ge)"
    using group_events_distinct [OF ge] by simp
  then have "sort (map fst ge) = sorted_list_of_set (set (map fst ge))"
    by (simp only: sorted_list_of_set_sort_remdups distinct_remdups_id)
  moreover have "set (map fst ge) = {q. \<exists>e \<in> set ?events. quantise_tick (fst e) ?grid = Inr q}"
  proof -
    have "q \<in> set (map fst ge) \<longleftrightarrow> (\<exists>e \<in> set ?events. quantise_tick (fst e) ?grid = Inr q)" for q
    proof -
      have "q \<in> set (map fst ge) \<longleftrightarrow> map_of ge q \<noteq> None"
        by (simp add: map_of_eq_None_iff)
      also have "\<dots> \<longleftrightarrow> ?sel q \<noteq> []" by (simp add: look)
      also have "\<dots> \<longleftrightarrow> (\<exists>e \<in> set ?events. quantise_tick (fst e) ?grid = Inr q)"
        by (simp add: filter_empty_conv)
      finally show ?thesis .
    qed
    then show ?thesis by blast
  qed
  ultimately have keys: "sort (map fst ge) =
      sorted_list_of_set {q. \<exists>e \<in> set ?events. quantise_tick (fst e) ?grid = Inr q}"
    by simp
  have "filter ?has (sort (map fst ge)) =
      filter (\<lambda>q. filter is_note_start (?group q) \<noteq> [])
        (sorted_list_of_set {q. \<exists>e \<in> set ?events. quantise_tick (fst e) ?grid = Inr q})"
    unfolding keys by (rule filter_cong) (simp_all only: has)
  with sel out show ?thesis by (simp only: Let_def)
qed

theorem beginner_selects_highest_witness:
  "simplify_beginner
     \<lparr>ticks_per_beat = 480,
      tracks = [[NoteOn 0 60 80 0, NoteOn 0 64 80 0, NoteOn 0 67 80 0, NoteOff 0 60 0 480,
                 NoteOff 0 64 0 0, NoteOn 0 72 120 0, NoteOff 0 67 0 0, EndOfTrack 0]]\<rparr>
   = Inr \<lparr>ticks_per_beat = 480,
      tracks = [[SetTempo 625000 0, EndOfTrack 0],
                [NoteOn 0 67 80 0, NoteOff 0 67 0 480, NoteOn 0 72 100 0,
                 NoteOff 0 72 0 480, EndOfTrack 0]]\<rparr> \<and>
   filter is_note_start (tracks \<lparr>ticks_per_beat = 480,
      tracks = [[SetTempo 625000 0, EndOfTrack 0],
                [NoteOn 0 67 80 0, NoteOff 0 67 0 480, NoteOn 0 72 100 0,
                 NoteOff 0 72 0 480, EndOfTrack 0]]\<rparr> ! 1) = [NoteOn 0 67 80 0, NoteOn 0 72 100 0] \<and>
   (let grid = ticks_per_beat 
     \<lparr>ticks_per_beat = 480,
      tracks = [[NoteOn 0 60 80 0, NoteOn 0 64 80 0, NoteOn 0 67 80 0, NoteOff 0 60 0 480,
                 NoteOff 0 64 0 0, NoteOn 0 72 120 0, NoteOff 0 67 0 0, EndOfTrack 0]]\<rparr>;
        events = sort_key event_key (collect_events (tracks 
     \<lparr>ticks_per_beat = 480,
      tracks = [[NoteOn 0 60 80 0, NoteOn 0 64 80 0, NoteOn 0 67 80 0, NoteOff 0 60 0 480,
                 NoteOff 0 64 0 0, NoteOn 0 72 120 0, NoteOff 0 67 0 0, EndOfTrack 0]]\<rparr>));
        group = (\<lambda>q. map snd (filter (\<lambda>e. quantise_tick (fst e) grid = Inr q) events));
        slots = filter (\<lambda>q. filter is_note_start (group q) \<noteq> [])
                  (sorted_list_of_set
                     {q. \<exists>e \<in> set events. quantise_tick (fst e) grid = Inr q})
    in list_all2
         (\<lambda>m q. \<exists>h \<in> set (group q). is_note_start h \<and>
                    (\<forall>m' \<in> set (group q). is_note_start m' \<longrightarrow> pitch m' \<le> pitch h) \<and>
                    pitch m = pitch h \<and> velocity m = min (velocity h) 100)
         (filter is_note_start (tracks 
     \<lparr>ticks_per_beat = 480,
      tracks = [[SetTempo 625000 0, EndOfTrack 0],
                [NoteOn 0 67 80 0, NoteOff 0 67 0 480, NoteOn 0 72 100 0,
                 NoteOff 0 72 0 480, EndOfTrack 0]]\<rparr> ! 1)) slots)"
proof -
  have h: "simplify_beginner
     \<lparr>ticks_per_beat = 480,
      tracks = [[NoteOn 0 60 80 0, NoteOn 0 64 80 0, NoteOn 0 67 80 0, NoteOff 0 60 0 480,
                 NoteOff 0 64 0 0, NoteOn 0 72 120 0, NoteOff 0 67 0 0, EndOfTrack 0]]\<rparr>
   = Inr \<lparr>ticks_per_beat = 480,
      tracks = [[SetTempo 625000 0, EndOfTrack 0],
                [NoteOn 0 67 80 0, NoteOff 0 67 0 480, NoteOn 0 72 100 0,
                 NoteOff 0 72 0 480, EndOfTrack 0]]\<rparr>"
    by code_simp
  have "filter is_note_start (tracks \<lparr>ticks_per_beat = 480,
      tracks = [[SetTempo 625000 0, EndOfTrack 0],
                [NoteOn 0 67 80 0, NoteOff 0 67 0 480, NoteOn 0 72 100 0,
                 NoteOff 0 72 0 480, EndOfTrack 0]]\<rparr> ! 1) = [NoteOn 0 67 80 0, NoteOn 0 72 100 0]"
    by simp
  with h beginner_selects_highest [OF h] show ?thesis by (intro conjI)
qed

end
